theory Spec2Isabelle
  imports Main "HOL-Library.AList"
begin

section \<open>Paragraph texts\<close>

text \<open>
  A paragraph text is a Python \<open>str\<close>. It is modelled as a \<^typ>\<open>string\<close>, a list of
  characters with code points below 256. On these code points \<open>str.strip()\<close> and the
  regular-expression class \<open>\s\<close> use the same set of white space (both are
  \<open>Py_UNICODE_ISSPACE\<close>), and \<open>\d\<close> is the class of the ten decimal digits.
\<close>

definition isspace :: "char \<Rightarrow> bool" where
  "isspace c \<longleftrightarrow> c \<in> set [CHR 0x09, CHR 0x0A, CHR 0x0B, CHR 0x0C, CHR 0x0D,
     CHR 0x1C, CHR 0x1D, CHR 0x1E, CHR 0x1F, CHR 0x20, CHR 0x85, CHR 0xA0]"

definition isdecimal :: "char \<Rightarrow> bool" where
  "isdecimal c \<longleftrightarrow> c \<in> set ''0123456789''"

text \<open>\<open>str.strip()\<close>: white space is removed at both ends.\<close>

definition strip :: "string \<Rightarrow> string" where
  "strip s = rev (dropWhile isspace (rev (dropWhile isspace s)))"

section \<open>Regular expressions\<close>

text \<open>
  The part of Python's \<open>re\<close> that the three patterns use: the classes \<open>\d\<close>, \<open>\s\<close>,
  \<open>.\<close> (every character but the line feed, no \<open>DOTALL\<close>) and an escaped literal; the
  anchors \<open>^\<close> and \<open>$\<close> (no \<open>MULTILINE\<close>: \<open>$\<close> holds at the end and before a final
  line feed); the greedy repetition \<open>+\<close> of a class; one capturing group.
\<close>

datatype category = Digit | Space | AnyChar | Literal char

fun category_ok :: "category \<Rightarrow> char \<Rightarrow> bool" where
  "category_ok Digit c = isdecimal c"
| "category_ok Space c = isspace c"
| "category_ok AnyChar c = (c \<noteq> CHR 0x0A)"
| "category_ok (Literal l) c = (c = l)"

datatype item = Bol | Eol | In category | Rep1 category | GroupOpen | GroupClose

text \<open>
  Backtracking over a greedy repetition: the longest count is tried first, then every
  shorter one down to one; the first count for which the rest of the pattern matches wins.
\<close>

fun try_down :: "(nat \<Rightarrow> 'a option) \<Rightarrow> nat \<Rightarrow> 'a option" where
  "try_down f 0 = None"
| "try_down f (Suc k) = (case f (Suc k) of Some r \<Rightarrow> Some r | None \<Rightarrow> try_down f k)"

text \<open>
  \<open>run p text s gs g\<close> matches the pattern items \<open>p\<close> against the rest \<open>s\<close> of \<open>text\<close>;
  \<open>gs\<close> is the rest of the text at which group 1 was opened, \<open>g\<close> the text of group 1.
  The result is \<open>None\<close> when there is no match, and the text of group 1 otherwise.
\<close>

fun run :: "item list \<Rightarrow> string \<Rightarrow> string \<Rightarrow> string \<Rightarrow> string \<Rightarrow> string option" where
  "run [] text s gs g = Some g"
| "run (Bol # p) text s gs g =
     (if length s = length text then run p text s gs g else None)"
| "run (Eol # p) text s gs g =
     (if s = [] \<or> s = [CHR 0x0A] then run p text s gs g else None)"
| "run (In c # p) text s gs g =
     (case s of [] \<Rightarrow> None
      | x # xs \<Rightarrow> if category_ok c x then run p text xs gs g else None)"
| "run (Rep1 c # p) text s gs g =
     try_down (\<lambda>k. run p text (drop k s) gs g) (length (takeWhile (category_ok c) s))"
| "run (GroupOpen # p) text s gs g = run p text s s g"
| "run (GroupClose # p) text s gs g = run p text s gs (take (length gs - length s) gs)"

text \<open>\<open>re.match(pattern, text)\<close>: a match at the start of the text, or \<open>None\<close>.\<close>

definition re_match :: "item list \<Rightarrow> string \<Rightarrow> string option" where
  "re_match p text = run p text text [] []"

text \<open>\<open>m.group(1)\<close>: on \<open>None\<close> Python raises \<open>AttributeError\<close>.\<close>

datatype error = KeyError | AttributeError

definition group1 :: "string option \<Rightarrow> error + string" where
  "group1 m = (case m of None \<Rightarrow> Inl AttributeError | Some g \<Rightarrow> Inr g)"

text \<open>
  The dictionary \<open>patterns\<close>:
  \<^verbatim>\<open>"H1": r"^\d+\s+(.+)$"\<close>,
  \<^verbatim>\<open>"H2": r"^\d+\.\d+\s+(.+)$"\<close>,
  \<^verbatim>\<open>"H3": r"^\d+\.\d+\.\d+\s+(.+)$"\<close>.
\<close>

datatype level = H1 | H2 | H3

fun patterns :: "level \<Rightarrow> item list" where
  "patterns H1 =
     [Bol, Rep1 Digit, Rep1 Space, GroupOpen, Rep1 AnyChar, GroupClose, Eol]"
| "patterns H2 =
     [Bol, Rep1 Digit, In (Literal CHR ''.''), Rep1 Digit, Rep1 Space,
      GroupOpen, Rep1 AnyChar, GroupClose, Eol]"
| "patterns H3 =
     [Bol, Rep1 Digit, In (Literal CHR ''.''), Rep1 Digit, In (Literal CHR ''.''), Rep1 Digit,
      Rep1 Space, GroupOpen, Rep1 AnyChar, GroupClose, Eol]"

section \<open>The nested dictionary of headings\<close>

text \<open>
  A Python \<open>dict\<close> whose keys are strings and whose values are dictionaries of the same
  kind; \<open>{}\<close> is \<open>Dict []\<close>. The entries are kept in insertion order, as Python keeps them.
\<close>

datatype hdict = Dict "(string \<times> hdict) list"

fun entries :: "hdict \<Rightarrow> (string \<times> hdict) list" where
  "entries (Dict kvs) = kvs"

text \<open>\<open>d[k]\<close> raises \<open>KeyError\<close> on a missing key.\<close>

definition getitem :: "hdict \<Rightarrow> string \<Rightarrow> error + hdict" where
  "getitem d k = (case map_of (entries d) k of None \<Rightarrow> Inl KeyError | Some v \<Rightarrow> Inr v)"

text \<open>\<open>d[k] = v\<close> replaces the value of a present key in place and appends a new key.\<close>

definition setitem :: "hdict \<Rightarrow> string \<Rightarrow> hdict \<Rightarrow> hdict" where
  "setitem d k v = Dict (AList.update k v (entries d))"

section \<open>The extractor\<close>

record state =
  headings_dict :: hdict
  current_h1 :: "string option"
  current_h2 :: "string option"

text \<open>The truth value of a variable that holds \<open>None\<close> or a string.\<close>

definition truthy :: "string option \<Rightarrow> bool" where
  "truthy v = (case v of None \<Rightarrow> False | Some s \<Rightarrow> s \<noteq> [])"

text \<open>The body of the loop over \<open>document.paragraphs\<close>, on the text of one paragraph.\<close>

definition loop_body :: "state \<Rightarrow> string \<Rightarrow> error + state" where
  "loop_body st paragraph =
     (let text = strip paragraph in
      if text = [] then Inr st
      else if re_match (patterns H1) text \<noteq> None then
        (case group1 (re_match (patterns H1) text) of
           Inl e \<Rightarrow> Inl e
         | Inr h1 \<Rightarrow>
             Inr (st\<lparr>current_h1 := Some h1,
                     headings_dict := setitem (headings_dict st) h1 (Dict [])\<rparr>))
      else if re_match (patterns H2) text \<noteq> None \<and> truthy (current_h1 st) then
        (case group1 (re_match (patterns H2) text) of
           Inl e \<Rightarrow> Inl e
         | Inr h2 \<Rightarrow>
             (case getitem (headings_dict st) (the (current_h1 st)) of
                Inl e \<Rightarrow> Inl e
              | Inr d1 \<Rightarrow>
                  Inr (st\<lparr>current_h2 := Some h2,
                          headings_dict := setitem (headings_dict st) (the (current_h1 st))
                             (setitem d1 h2 (Dict []))\<rparr>)))
      else if re_match (patterns H3) text \<noteq> None \<and> truthy (current_h1 st)
                \<and> truthy (current_h2 st) then
        (case group1 (re_match (patterns H3) text) of
           Inl e \<Rightarrow> Inl e
         | Inr h3 \<Rightarrow>
             (case getitem (headings_dict st) (the (current_h1 st)) of
                Inl e \<Rightarrow> Inl e
              | Inr d1 \<Rightarrow>
                  (case getitem d1 (the (current_h2 st)) of
                     Inl e \<Rightarrow> Inl e
                   | Inr d2 \<Rightarrow>
                       Inr (st\<lparr>headings_dict := setitem (headings_dict st) (the (current_h1 st))
                               (setitem d1 (the (current_h2 st))
                                  (setitem d2 h3 (Dict [])))\<rparr>))))
      else Inr st)"

text \<open>The loop: an exception ends it.\<close>

fun loop :: "state \<Rightarrow> string list \<Rightarrow> error + state" where
  "loop st [] = Inr st"
| "loop st (paragraph # paragraphs) =
     (case loop_body st paragraph of
        Inl e \<Rightarrow> Inl e
      | Inr st' \<Rightarrow> loop st' paragraphs)"

definition init :: state where
  "init = \<lparr>headings_dict = Dict [], current_h1 = None, current_h2 = None\<rparr>"

text \<open>
  \<open>extract_headings\<close>, on the texts of the paragraphs of the document in document order
  (loading the document is the work of the \<open>docx\<close> library).
\<close>

definition extract_headings :: "string list \<Rightarrow> error + hdict" where
  "extract_headings paragraphs =
     (case loop init paragraphs of Inl e \<Rightarrow> Inl e | Inr st \<Rightarrow> Inr (headings_dict st))"

section \<open>Auxiliary notions\<close>

text \<open>The end of each of the three patterns: \<^verbatim>\<open>(.+)$\<close>.\<close>

definition tailp :: "item list" where
  "tailp = [GroupOpen, Rep1 AnyChar, GroupClose, Eol]"


text \<open>The pattern items that neither open nor close the group nor test the end.\<close>

fun plain :: "item \<Rightarrow> bool" where
  "plain Bol = True"
| "plain (In c) = True"
| "plain (Rep1 c) = True"
| "plain _ = False"


text \<open>
  The level of a text when the three patterns are tested in a given order: the first
  level of the order whose pattern matches.
\<close>

definition classify :: "level list \<Rightarrow> string \<Rightarrow> level option" where
  "classify order text = find (\<lambda>l. re_match (patterns l) text \<noteq> None) order"


text \<open>Every key of a nested dictionary, at every depth.\<close>

fun all_keys :: "hdict \<Rightarrow> string set" where
  "all_keys (Dict kvs) = fst ` set kvs \<union> (\<Union>kv\<in>set kvs. all_keys (snd kv))"

text \<open>A label: not empty, with no white space at either end.\<close>

definition label_ok :: "string \<Rightarrow> bool" where
  "label_ok k \<longleftrightarrow> k \<noteq> [] \<and> \<not> isspace (hd k) \<and> \<not> isspace (last k)"

text \<open>A blank paragraph: empty, or white space only.\<close>

definition blank :: "string \<Rightarrow> bool" where
  "blank p = list_all isspace p"

text \<open>
  The headings seen so far, read off the paragraphs alone: the label of the last level-1
  heading, and the label of the last level-2 heading that follows it. A level-2 heading
  before every level-1 heading does not count.
\<close>

definition track :: "string option \<times> string option \<Rightarrow> string \<Rightarrow> string option \<times> string option" where
  "track c p =
     (case re_match (patterns H1) (strip p) of
        Some a \<Rightarrow> (Some a, None)
      | None \<Rightarrow>
          (case re_match (patterns H2) (strip p) of
             Some b \<Rightarrow> (if fst c = None then c else (fst c, Some b))
           | None \<Rightarrow> c))"

definition heading_context :: "string list \<Rightarrow> string option \<times> string option" where
  "heading_context ps = foldl track (None, None) ps"

text \<open>The labels held by a state of the loop are well formed.\<close>

definition labels_ok :: "state \<Rightarrow> bool" where
  "labels_ok st \<longleftrightarrow> (\<forall>k\<in>all_keys (headings_dict st). label_ok k)
     \<and> (\<forall>a. current_h1 st = Some a \<longrightarrow> label_ok a)
     \<and> (\<forall>b. current_h2 st = Some b \<longrightarrow> label_ok b)"

text \<open>
  The state of the loop agrees with the headings seen so far: the dictionary has an entry
  for the current level-1 label, which is empty as long as no level-2 heading has followed,
  and otherwise has an entry for the current level-2 label.
\<close>

definition ctx_inv :: "string option \<times> string option \<Rightarrow> state \<Rightarrow> bool" where
  "ctx_inv c st \<longleftrightarrow> current_h1 st = fst c
     \<and> (fst c = None \<longrightarrow> current_h2 st = None \<and> snd c = None)
     \<and> (\<forall>a. fst c = Some a \<longrightarrow> a \<noteq> [] \<and>
          (\<exists>d1. getitem (headings_dict st) a = Inr d1 \<and>
             (case snd c of
                None \<Rightarrow> d1 = Dict []
              | Some b \<Rightarrow> current_h2 st = Some b \<and> b \<noteq> [] \<and> (\<exists>d2. getitem d1 b = Inr d2))))"


section \<open>The matcher on the three patterns\<close>

lemma try_down_SomeD:
  "try_down f n = Some r \<Longrightarrow> \<exists>k. 0 < k \<and> k \<le> n \<and> f k = Some r \<and> (\<forall>j. k < j \<and> j \<le> n \<longrightarrow> f j = None)"
proof (induction n)
  case 0
  then show ?case by simp
next
  case (Suc n)
  show ?case
  proof (cases "f (Suc n)")
    case None
    with Suc.prems have "try_down f n = Some r" by simp
    from Suc.IH[OF this] obtain k where k: "0 < k" "k \<le> n" "f k = Some r"
      "\<forall>j. k < j \<and> j \<le> n \<longrightarrow> f j = None" by blast
    have "\<forall>j. k < j \<and> j \<le> Suc n \<longrightarrow> f j = None"
      using k(4) None by (auto simp: le_Suc_eq)
    with k show ?thesis by (intro exI[of _ k]) simp
  next
    case (Some a)
    with Suc.prems have "f (Suc n) = Some r" by simp
    then show ?thesis by (intro exI[of _ "Suc n"]) auto
  qed
qed

lemma try_down_top: "0 < n \<Longrightarrow> f n = Some r \<Longrightarrow> try_down f n = Some r"
  by (cases n) simp_all

lemma run_Rep1D:
  assumes "run (Rep1 c # p) text s gs g = Some r"
  shows "\<exists>u v. s = u @ v \<and> u \<noteq> [] \<and> (\<forall>x\<in>set u. category_ok c x) \<and> run p text v gs g = Some r"
proof -
  let ?n = "length (takeWhile (category_ok c) s)"
  from assms have "try_down (\<lambda>k. run p text (drop k s) gs g) ?n = Some r" by simp
  from try_down_SomeD[OF this] obtain k where k: "0 < k" "k \<le> ?n"
    "run p text (drop k s) gs g = Some r" by blast
  have "take k s = take k (takeWhile (category_ok c) s)"
    using k(2) by (metis append_eq_conv_conj takeWhile_dropWhile_id take_append min.absorb2 take_all_iff length_take order_refl append_Nil2 diff_is_0_eq take_0)
  then have "\<forall>x\<in>set (take k s). category_ok c x"
    by (metis in_set_takeD set_takeWhileD)
  moreover have "take k s \<noteq> []" using k(1,2) by auto
  ultimately show ?thesis using k(3) by (intro exI[of _ "take k s"] exI[of _ "drop k s"]) simp
qed

lemma run_InD:
  "run (In c # p) text s gs g = Some r \<Longrightarrow> \<exists>x v. s = x # v \<and> category_ok c x \<and> run p text v gs g = Some r"
  by (cases s) (auto split: if_splits)

lemma run_BolD: "run (Bol # p) text s gs g = Some r \<Longrightarrow> run p text s gs g = Some r"
  by (auto split: if_splits)


lemma run_tailp_all:
  assumes "s \<noteq> []" "CHR 0x0A \<notin> set s"
  shows "run tailp text s gs g = Some s"
proof -
  have tw: "takeWhile (category_ok AnyChar) s = s"
    using assms(2) by (auto simp: takeWhile_eq_all_conv)
  have "0 < length s" using assms(1) by simp
  moreover have "run [GroupClose, Eol] text (drop (length s) s) s g = Some s" by simp
  ultimately have "try_down (\<lambda>k. run [GroupClose, Eol] text (drop k s) s g) (length s) = Some s"
    by (rule try_down_top)
  then show ?thesis by (simp add: tailp_def tw)
qed

lemma run_tailpD:
  assumes "run tailp text s gs g = Some r"
  shows "\<exists>tl. s = r @ tl \<and> r \<noteq> [] \<and> CHR 0x0A \<notin> set r \<and> (tl = [] \<or> tl = [CHR 0x0A])"
proof -
  from assms have "run (Rep1 AnyChar # [GroupClose, Eol]) text s s g = Some r"
    by (simp add: tailp_def)
  from run_Rep1D[OF this] obtain u v where uv: "s = u @ v" "u \<noteq> []"
    "\<forall>x\<in>set u. category_ok AnyChar x" "run [GroupClose, Eol] text v s g = Some r" by blast
  from uv(4) have v: "v = [] \<or> v = [CHR 0x0A]" and r: "r = take (length s - length v) s"
    by (auto split: if_splits)
  from r uv(1) have "r = u" by simp
  with uv v show ?thesis by auto
qed

lemma category_ok_Space: "category_ok Space = isspace"
  by (rule ext) simp

lemma category_ok_Digit: "category_ok Digit = isdecimal"
  by (rule ext) simp

lemma run_space_tailD:
  assumes m: "run (Rep1 Space # tailp) text s gs g = Some r"
    and ne: "s \<noteq> []" and l: "\<not> isspace (last s)"
  shows "r \<noteq> [] \<and> \<not> isspace (hd r) \<and> \<not> isspace (last r) \<and> CHR 0x0A \<notin> set r"
proof -
  let ?n = "length (takeWhile isspace s)"
  let ?f = "\<lambda>k. run tailp text (drop k s) gs g"
  from m have "try_down ?f ?n = Some r" by (simp add: category_ok_Space)
  from try_down_SomeD[OF this] obtain k where k: "0 < k" "k \<le> ?n" "?f k = Some r"
    "\<forall>j. k < j \<and> j \<le> ?n \<longrightarrow> ?f j = None" by blast
  from run_tailpD[OF k(3)] obtain tl where tl: "drop k s = r @ tl" "r \<noteq> []"
    "CHR 0x0A \<notin> set r" "tl = [] \<or> tl = [CHR 0x0A]" by blast
  have nl: "isspace (CHR 0x0A)" by (simp add: isspace_def)
  have last_eq: "last (drop k s) = last s" using tl(1,2) by (metis Nil_is_append_conv drop_eq_Nil last_drop not_le)
  have tl_nil: "tl = []"
  proof (rule ccontr)
    assume "tl \<noteq> []"
    with tl(4) have "tl = [CHR 0x0A]" by simp
    with tl(1) have "last (drop k s) = CHR 0x0A" by simp
    with last_eq l nl show False by simp
  qed
  have dn: "drop ?n s = dropWhile isspace s"
    by (metis append_eq_conv_conj takeWhile_dropWhile_id)
  have dw_ne: "dropWhile isspace s \<noteq> []"
    using ne l by (metis dropWhile_eq_Nil_conv last_in_set)
  have kn: "k = ?n"
  proof (rule ccontr)
    assume "k \<noteq> ?n"
    with k(2) have lt: "k < ?n" by simp
    have "drop ?n s = drop (?n - k) (drop k s)" using lt by simp
    then have "set (drop ?n s) \<subseteq> set r" using tl(1) tl_nil by (metis append_Nil2 set_drop_subset)
    then have "CHR 0x0A \<notin> set (drop ?n s)" using tl(3) by blast
    with dw_ne dn have "?f ?n = Some (drop ?n s)" by (simp add: run_tailp_all)
    moreover from k(4) lt have "?f ?n = None" by simp
    ultimately show False by simp
  qed
  have "r = dropWhile isspace s" using tl(1) tl_nil kn dn by simp
  then have "\<not> isspace (hd r)" using dw_ne by (metis hd_dropWhile)
  moreover have "last r = last s" using tl(1) tl_nil last_eq by simp
  ultimately show ?thesis using tl l by simp
qed

lemma run_plain_prefixD:
  "\<forall>i\<in>set pre. plain i \<Longrightarrow> run (pre @ q) text s gs g = Some r
    \<Longrightarrow> \<exists>k. run q text (drop k s) gs g = Some r"
proof (induction pre arbitrary: s)
  case Nil
  then show ?case by (intro exI[of _ 0]) simp
next
  case (Cons i pre)
  have IH: "\<And>s. run (pre @ q) text s gs g = Some r \<Longrightarrow> \<exists>k. run q text (drop k s) gs g = Some r"
    using Cons.IH Cons.prems(1) by simp
  show ?case
  proof (cases i)
    case Bol
    with Cons.prems(2) have "run (pre @ q) text s gs g = Some r" by (auto split: if_splits)
    then show ?thesis by (rule IH)
  next
    case (In c)
    with Cons.prems(2) have "run (In c # (pre @ q)) text s gs g = Some r"
      by (simp only: append_Cons)
    from run_InD[OF this] obtain x v where "s = x # v" "run (pre @ q) text v gs g = Some r"
      by blast
    with IH[of v] obtain k where "run q text (drop (Suc k) s) gs g = Some r" by auto
    then show ?thesis by blast
  next
    case (Rep1 c)
    with Cons.prems(2) have "run (Rep1 c # (pre @ q)) text s gs g = Some r"
      by (simp only: append_Cons)
    from run_Rep1D[OF this] obtain u v where "s = u @ v" "run (pre @ q) text v gs g = Some r"
      by blast
    with IH[of v] obtain k where "run q text (drop (length u + k) s) gs g = Some r"
      by (auto simp: add.commute)
    then show ?thesis by blast
  qed (use Cons.prems(1) in auto)
qed

lemma patterns_split:
  "\<exists>pre. patterns l = pre @ Rep1 Space # tailp \<and> (\<forall>i\<in>set pre. plain i)"
proof (cases l)
  case H1
  then show ?thesis by (intro exI[of _ "[Bol, Rep1 Digit]"]) (simp add: tailp_def)
next
  case H2
  then show ?thesis
    by (intro exI[of _ "[Bol, Rep1 Digit, In (Literal CHR ''.''), Rep1 Digit]"]) (simp add: tailp_def)
next
  case H3
  then show ?thesis
    by (intro exI[of _ "[Bol, Rep1 Digit, In (Literal CHR ''.''), Rep1 Digit,
         In (Literal CHR ''.''), Rep1 Digit]"]) (simp add: tailp_def)
qed

lemma run_space_tail_Nil: "run (Rep1 Space # p) text [] gs g = None"
  by simp

lemma strip_last: "strip p \<noteq> [] \<Longrightarrow> \<not> isspace (last (strip p))"
  unfolding strip_def by (metis hd_dropWhile hd_rev rev_is_Nil_conv rev_rev_ident)

lemma re_match_group_nonempty:
  assumes "re_match (patterns l) t = Some g"
  shows "g \<noteq> []"
proof -
  obtain pre where pre: "patterns l = pre @ Rep1 Space # tailp" "\<forall>i\<in>set pre. plain i"
    using patterns_split by blast
  from assms pre(1) have "run (pre @ Rep1 Space # tailp) t t [] [] = Some g"
    by (simp add: re_match_def)
  from run_plain_prefixD[OF pre(2) this] obtain k where
    "run (Rep1 Space # tailp) t (drop k t) [] [] = Some g" by blast
  from run_Rep1D[OF this] obtain v where "run tailp t v [] [] = Some g" by blast
  from run_tailpD[OF this] show ?thesis by blast
qed

lemma re_match_stripped_label:
  assumes "re_match (patterns l) (strip p) = Some g"
  shows "g \<noteq> [] \<and> \<not> isspace (hd g) \<and> \<not> isspace (last g) \<and> CHR 0x0A \<notin> set g"
proof -
  let ?t = "strip p"
  obtain pre where pre: "patterns l = pre @ Rep1 Space # tailp" "\<forall>i\<in>set pre. plain i"
    using patterns_split by blast
  from assms pre(1) have "run (pre @ Rep1 Space # tailp) ?t ?t [] [] = Some g"
    by (simp add: re_match_def)
  from run_plain_prefixD[OF pre(2) this] obtain k where
    k: "run (Rep1 Space # tailp) ?t (drop k ?t) [] [] = Some g" by blast
  have ne: "drop k ?t \<noteq> []" using k by (cases "drop k ?t") auto
  then have "?t \<noteq> []" by auto
  then have "\<not> isspace (last ?t)" by (rule strip_last)
  moreover have "last (drop k ?t) = last ?t" using ne by (simp add: last_drop)
  ultimately have "\<not> isspace (last (drop k ?t))" by simp
  from run_space_tailD[OF k ne this] show ?thesis .
qed

lemma dropWhile_digits:
  "\<forall>x\<in>set u. isdecimal x \<Longrightarrow> \<not> isdecimal y \<Longrightarrow> dropWhile isdecimal (u @ y # v) = y # v"
  by (simp add: dropWhile_append3)

lemma space_not_decimal: "isspace c \<Longrightarrow> \<not> isdecimal c"
  by (auto simp: isspace_def isdecimal_def)

lemma dot_not_decimal: "\<not> isdecimal CHR ''.''"
  by (simp add: isdecimal_def)

lemma dot_not_space: "\<not> isspace CHR ''.''"
  by (simp add: isspace_def)

lemma digits_then_space:
  assumes "run (Rep1 Digit # Rep1 Space # p) text s gs g = Some r"
  shows "dropWhile isdecimal s \<noteq> [] \<and> isspace (hd (dropWhile isdecimal s))"
proof -
  from run_Rep1D[OF assms] obtain u v where uv: "s = u @ v" "\<forall>x\<in>set u. category_ok Digit x"
    "run (Rep1 Space # p) text v gs g = Some r" by blast
  from run_Rep1D[OF uv(3)] obtain w z where wz: "v = w @ z" "w \<noteq> []"
    "\<forall>x\<in>set w. category_ok Space x" by blast
  then obtain y w' where w: "w = y # w'" by (cases w) auto
  with wz have y: "isspace y" by simp
  have "dropWhile isdecimal s = y # w' @ z"
    using uv(1,2) wz(1) w dropWhile_digits[of u y "w' @ z"] space_not_decimal[OF y] by simp
  with y show ?thesis by simp
qed

lemma digits_then_dot:
  assumes "run (Rep1 Digit # In (Literal CHR ''.'') # p) text s gs g = Some r"
  shows "\<exists>v. dropWhile isdecimal s = CHR ''.'' # v \<and> run p text v gs g = Some r"
proof -
  from run_Rep1D[OF assms] obtain u v where uv: "s = u @ v" "\<forall>x\<in>set u. category_ok Digit x"
    "run (In (Literal CHR ''.'') # p) text v gs g = Some r" by blast
  from run_InD[OF uv(3)] obtain z where z: "v = CHR ''.'' # z" "run p text z gs g = Some r"
    by auto
  have "dropWhile isdecimal s = CHR ''.'' # z"
    using uv(1,2) z(1) dropWhile_digits[of u "CHR ''.''" z] dot_not_decimal by simp
  with z(2) show ?thesis by simp
qed

lemma H1_shape:
  assumes "re_match (patterns H1) t = Some g"
  shows "dropWhile isdecimal t \<noteq> [] \<and> isspace (hd (dropWhile isdecimal t))"
proof -
  from assms have "run (Rep1 Digit # Rep1 Space # tailp) t t [] [] = Some g"
    by (simp add: re_match_def tailp_def split: if_splits)
  then show ?thesis by (rule digits_then_space)
qed

lemma H2_shape:
  assumes "re_match (patterns H2) t = Some g"
  shows "\<exists>v. dropWhile isdecimal t = CHR ''.'' # v
           \<and> dropWhile isdecimal v \<noteq> [] \<and> isspace (hd (dropWhile isdecimal v))"
proof -
  from assms have "run (Rep1 Digit # In (Literal CHR ''.'') # Rep1 Digit # Rep1 Space # tailp)
      t t [] [] = Some g"
    by (simp add: re_match_def tailp_def split: if_splits)
  from digits_then_dot[OF this] obtain v where v: "dropWhile isdecimal t = CHR ''.'' # v"
    "run (Rep1 Digit # Rep1 Space # tailp) t v [] [] = Some g" by blast
  from digits_then_space[OF v(2)] v(1) show ?thesis by blast
qed

lemma H3_shape:
  assumes "re_match (patterns H3) t = Some g"
  shows "\<exists>v w. dropWhile isdecimal t = CHR ''.'' # v \<and> dropWhile isdecimal v = CHR ''.'' # w"
proof -
  from assms have "run (Rep1 Digit # In (Literal CHR ''.'') # Rep1 Digit
      # In (Literal CHR ''.'') # Rep1 Digit # Rep1 Space # tailp) t t [] [] = Some g"
    by (simp add: re_match_def tailp_def split: if_splits)
  from digits_then_dot[OF this] obtain v where v: "dropWhile isdecimal t = CHR ''.'' # v"
    "run (Rep1 Digit # In (Literal CHR ''.'') # Rep1 Digit # Rep1 Space # tailp) t v [] [] = Some g"
    by blast
  from digits_then_dot[OF v(2)] v(1) show ?thesis by blast
qed

lemma not_H1_H2: "re_match (patterns H1) t \<noteq> None \<Longrightarrow> re_match (patterns H2) t = None"
  using H1_shape[of t] H2_shape[of t] dot_not_space by fastforce

lemma not_H1_H3: "re_match (patterns H1) t \<noteq> None \<Longrightarrow> re_match (patterns H3) t = None"
  using H1_shape[of t] H3_shape[of t] dot_not_space by fastforce

lemma not_H2_H3: "re_match (patterns H2) t \<noteq> None \<Longrightarrow> re_match (patterns H3) t = None"
  using H2_shape[of t] H3_shape[of t] dot_not_space by fastforce

lemma patterns_exclusive:
  assumes "re_match (patterns l) t \<noteq> None" "re_match (patterns l') t \<noteq> None"
  shows "l = l'"
  using assms not_H1_H2[of t] not_H1_H3[of t] not_H2_H3[of t]
  by (cases l; cases l') auto

lemma find_unique:
  assumes "\<And>x y. P x \<Longrightarrow> P y \<Longrightarrow> x = y"
  shows "find P xs = (if \<exists>x\<in>set xs. P x then Some (THE x. P x) else None)"
proof (induction xs)
  case Nil
  then show ?case by simp
next
  case (Cons a xs)
  show ?case
  proof (cases "P a")
    case True
    then have "(THE x. P x) = a" using assms by blast
    with True show ?thesis by simp
  next
    case False
    with Cons show ?thesis by simp
  qed
qed


text \<open>
  C8. At most one of the three patterns matches a text (trimmed or not), so the level
  found does not depend on the order in which the patterns are tested.
\<close>

theorem patterns_at_most_one:
  "(\<forall>l l'. re_match (patterns l) text \<noteq> None \<and> re_match (patterns l') text \<noteq> None \<longrightarrow> l = l')
   \<and> (\<forall>order order'. set order = set order' \<longrightarrow> classify order text = classify order' text)"
proof -
  let ?P = "\<lambda>l. re_match (patterns l) text \<noteq> None"
  have u: "\<And>x y. ?P x \<Longrightarrow> ?P y \<Longrightarrow> x = y" by (rule patterns_exclusive)
  have "classify order text = classify order' text" if eq: "set order = set order'"
    for order order'
  proof -
    have "find ?P order = (if \<exists>x\<in>set order. ?P x then Some (THE x. ?P x) else None)"
      by (rule find_unique[of ?P, OF u])
    moreover
    have "find ?P order' = (if \<exists>x\<in>set order'. ?P x then Some (THE x. ?P x) else None)"
      by (rule find_unique[of ?P, OF u])
    ultimately have "find ?P order = find ?P order'" using eq by (simp only:)
    then show ?thesis by (simp only: classify_def)
  qed
  with u show ?thesis by blast
qed

theorem patterns_at_most_one_witness:
  "re_match (patterns H2) ''1.1 B'' \<noteq> None \<and> re_match (patterns H1) ''1.1 B'' = None
   \<and> re_match (patterns H3) ''1.1 B'' = None
   \<and> classify [H3, H2, H1] ''1.1 B'' = Some H2 \<and> classify [H1, H2, H3] ''1.1 B'' = Some H2"
proof -
  have m: "re_match (patterns H2) ''1.1 B'' \<noteq> None" by code_simp
  have s: "set [H3, H2, H1] = set [H1, H2, H3]" by auto
  have c: "classify [H1, H2, H3] ''1.1 B'' = Some H2" by code_simp
  from patterns_at_most_one[of "''1.1 B''"] m s c show ?thesis by (metis level.distinct)
qed

section \<open>Dictionaries, blank paragraphs and the loop body\<close>

lemma getitem_setitem:
  "getitem (setitem d k v) k' = (if k' = k then Inr v else getitem d k')"
  by (simp add: getitem_def setitem_def update_conv')

lemma set_update_subset: "set (AList.update k v al) \<subseteq> insert (k, v) (set al)"
  by (induction al) auto

lemma all_keys_setitem: "all_keys (setitem d k v) \<subseteq> insert k (all_keys d \<union> all_keys v)"
proof -
  obtain kvs where d: "d = Dict kvs" by (cases d)
  show ?thesis using set_update_subset[of k v kvs]
    by (fastforce simp: d setitem_def)
qed

lemma all_keys_getitem: "getitem d k = Inr v \<Longrightarrow> all_keys v \<subseteq> all_keys d"
proof -
  assume a: "getitem d k = Inr v"
  obtain kvs where d: "d = Dict kvs" by (cases d)
  from a d have "map_of kvs k = Some v" by (auto simp: getitem_def split: option.splits)
  then have "(k, v) \<in> set kvs" by (rule map_of_SomeD)
  then show ?thesis by (force simp: d)
qed

lemma strip_Nil_iff: "strip p = [] \<longleftrightarrow> list_all isspace p"
proof
  assume "strip p = []"
  then have "dropWhile isspace p = []"
    unfolding strip_def by (metis dropWhile_eq_Nil_conv rev_is_Nil_conv set_rev hd_dropWhile list.set_sel(1))
  then show "list_all isspace p" by (simp add: list_all_iff)
next
  assume "list_all isspace p"
  then have "dropWhile isspace p = []" by (simp add: list_all_iff)
  then show "strip p = []" by (simp only: strip_def rev.simps dropWhile.simps)
qed

lemma re_match_Nil: "re_match (patterns l) [] = None"
  by (cases l) (simp_all add: re_match_def)

lemma re_match_Nil_not_Some: "re_match (patterns l) t = Some g \<Longrightarrow> t \<noteq> []"
  using re_match_Nil[of l] by auto


declare patterns.simps [simp del]

lemma other_level_None:
  "re_match (patterns l) t = Some g \<Longrightarrow> l' \<noteq> l \<Longrightarrow> re_match (patterns l') t = None"
  using patterns_exclusive[of l' t l] by (cases "re_match (patterns l') t") auto

lemma loop_append:
  "loop st (ps @ qs) = (case loop st ps of Inl e \<Rightarrow> Inl e | Inr st' \<Rightarrow> loop st' qs)"
  by (induction ps arbitrary: st) (auto split: sum.splits)

lemma loop_snoc:
  "loop st (ps @ [p]) = (case loop st ps of Inl e \<Rightarrow> Inl e | Inr st' \<Rightarrow> loop_body st' p)"
  by (simp add: loop_append split: sum.splits)

lemma loop_body_blank: "strip p = [] \<Longrightarrow> loop_body st p = Inr st"
  by (simp add: loop_body_def Let_def)

lemma loop_body_H1:
  assumes "re_match (patterns H1) (strip p) = Some a"
  shows "loop_body st p =
    Inr (st\<lparr>current_h1 := Some a, headings_dict := setitem (headings_dict st) a (Dict [])\<rparr>)"
proof -
  have "strip p \<noteq> []" using assms by (rule re_match_Nil_not_Some)
  with assms show ?thesis by (simp add: loop_body_def group1_def Let_def)
qed

lemma loop_body_H2:
  assumes "re_match (patterns H2) (strip p) = Some b"
  shows "loop_body st p =
    (if truthy (current_h1 st) then
       (case getitem (headings_dict st) (the (current_h1 st)) of
          Inl e \<Rightarrow> Inl e
        | Inr d1 \<Rightarrow> Inr (st\<lparr>current_h2 := Some b,
            headings_dict := setitem (headings_dict st) (the (current_h1 st))
              (setitem d1 b (Dict []))\<rparr>))
     else Inr st)"
proof -
  have ne: "strip p \<noteq> []" using assms by (rule re_match_Nil_not_Some)
  have n1: "re_match (patterns H1) (strip p) = None"
    by (rule other_level_None[OF assms]) simp
  have n3: "re_match (patterns H3) (strip p) = None"
    by (rule other_level_None[OF assms]) simp
  show ?thesis using assms ne n1 n3 by (simp add: loop_body_def group1_def Let_def)
qed

lemma loop_body_H3:
  assumes "re_match (patterns H3) (strip p) = Some c"
  shows "loop_body st p =
    (if truthy (current_h1 st) \<and> truthy (current_h2 st) then
       (case getitem (headings_dict st) (the (current_h1 st)) of
          Inl e \<Rightarrow> Inl e
        | Inr d1 \<Rightarrow>
            (case getitem d1 (the (current_h2 st)) of
               Inl e \<Rightarrow> Inl e
             | Inr d2 \<Rightarrow> Inr (st\<lparr>headings_dict :=
                 setitem (headings_dict st) (the (current_h1 st))
                   (setitem d1 (the (current_h2 st)) (setitem d2 c (Dict [])))\<rparr>)))
     else Inr st)"
proof -
  have ne: "strip p \<noteq> []" using assms by (rule re_match_Nil_not_Some)
  have n1: "re_match (patterns H1) (strip p) = None"
    by (rule other_level_None[OF assms]) simp
  have n2: "re_match (patterns H2) (strip p) = None"
    by (rule other_level_None[OF assms]) simp
  show ?thesis using assms ne n1 n2 by (simp add: loop_body_def group1_def Let_def)
qed

lemma loop_body_none:
  assumes "\<forall>l. re_match (patterns l) (strip p) = None"
  shows "loop_body st p = Inr st"
  using assms by (simp add: loop_body_def Let_def)

lemma extract_headings_no_heading:
  assumes "\<forall>p\<in>set ps. \<forall>l. re_match (patterns l) (strip p) = None"
  shows "extract_headings ps = Inr (Dict [])"
proof -
  have "loop st ps = Inr st" for st
    using assms by (induction ps) (simp_all add: loop_body_none)
  then show ?thesis by (simp add: extract_headings_def init_def)
qed

lemma extract_headings_blank:
  "extract_headings (filter (\<lambda>p. \<not> blank p) ps) = extract_headings ps"
proof -
  have "loop st (filter (\<lambda>p. \<not> blank p) ps) = loop st ps" for st
  proof (induction ps arbitrary: st)
    case Nil
    then show ?case by simp
  next
    case (Cons p ps)
    show ?case
    proof (cases "blank p")
      case True
      then have "loop_body st p = Inr st"
        by (simp add: blank_def strip_Nil_iff loop_body_blank)
      with True Cons show ?thesis by simp
    next
      case False
      with Cons show ?thesis by (simp split: sum.splits)
    qed
  qed
  then show ?thesis by (simp add: extract_headings_def)
qed

section \<open>Well-formed labels\<close>

lemma paragraph_cases:
  obtains (h1) a where "re_match (patterns H1) (strip p) = Some a"
  | (h2) b where "re_match (patterns H2) (strip p) = Some b"
  | (h3) c where "re_match (patterns H3) (strip p) = Some c"
  | (none) "\<forall>l. re_match (patterns l) (strip p) = None"
  by (metis level.exhaust not_Some_eq)

lemma truthyD: "truthy v \<Longrightarrow> \<exists>s. v = Some s \<and> s \<noteq> []"
  by (cases v) (auto simp: truthy_def)

lemma label_ok_match: "re_match (patterns l) (strip p) = Some g \<Longrightarrow> label_ok g"
  using re_match_stripped_label[of l p g] by (simp add: label_ok_def)

lemma all_keys_empty: "all_keys (Dict []) = {}"
  by simp

lemma keys_ok_setitem:
  assumes "\<forall>x\<in>all_keys d. label_ok x" "label_ok k" "\<forall>x\<in>all_keys v. label_ok x"
  shows "\<forall>x\<in>all_keys (setitem d k v). label_ok x"
  using assms all_keys_setitem[of d k v] by blast

lemma keys_ok_getitem:
  assumes "\<forall>x\<in>all_keys d. label_ok x" "getitem d k = Inr v"
  shows "\<forall>x\<in>all_keys v. label_ok x"
  using assms all_keys_getitem[of d k v] by blast

lemma loop_body_labels_ok:
  assumes inv: "labels_ok st" and step: "loop_body st p = Inr st'"
  shows "labels_ok st'"
proof (cases p rule: paragraph_cases)
  case (h1 a)
  have a: "label_ok a" using h1 by (rule label_ok_match)
  have e: "\<forall>x\<in>all_keys (Dict []). label_ok x" by simp
  have "\<forall>x\<in>all_keys (setitem (headings_dict st) a (Dict [])). label_ok x"
    using inv a e by (intro keys_ok_setitem) (simp_all add: labels_ok_def)
  moreover have "st' = st\<lparr>current_h1 := Some a,
      headings_dict := setitem (headings_dict st) a (Dict [])\<rparr>"
    using step loop_body_H1[OF h1, of st] by simp
  ultimately show ?thesis using inv a by (simp add: labels_ok_def)
next
  case (h2 b)
  have b: "label_ok b" using h2 by (rule label_ok_match)
  show ?thesis
  proof (cases "truthy (current_h1 st)")
    case True
    then obtain a where a: "current_h1 st = Some a" using truthyD by blast
    with inv have aok: "label_ok a" by (simp add: labels_ok_def)
    from step True a obtain d1 where d1: "getitem (headings_dict st) a = Inr d1"
      and st': "st' = st\<lparr>current_h2 := Some b,
        headings_dict := setitem (headings_dict st) a (setitem d1 b (Dict []))\<rparr>"
      by (auto simp: loop_body_H2[OF h2] split: sum.splits)
    have dk: "\<forall>x\<in>all_keys (headings_dict st). label_ok x" using inv by (simp add: labels_ok_def)
    have e: "\<forall>x\<in>all_keys (Dict []). label_ok x" by simp
    have "\<forall>x\<in>all_keys d1. label_ok x" using dk d1 by (rule keys_ok_getitem)
    then have "\<forall>x\<in>all_keys (setitem d1 b (Dict [])). label_ok x"
      using b e by (rule keys_ok_setitem)
    with dk aok have "\<forall>x\<in>all_keys (setitem (headings_dict st) a (setitem d1 b (Dict []))). label_ok x"
      by (rule keys_ok_setitem)
    then show ?thesis using inv b st' by (simp add: labels_ok_def)
  next
    case False
    with step have "st' = st" by (simp add: loop_body_H2[OF h2])
    with inv show ?thesis by simp
  qed
next
  case (h3 c)
  have c: "label_ok c" using h3 by (rule label_ok_match)
  show ?thesis
  proof (cases "truthy (current_h1 st) \<and> truthy (current_h2 st)")
    case True
    then obtain a b where a: "current_h1 st = Some a" and b: "current_h2 st = Some b"
      using truthyD by blast
    with inv have aok: "label_ok a" and bok: "label_ok b" by (simp_all add: labels_ok_def)
    from step True a b obtain d1 d2 where d1: "getitem (headings_dict st) a = Inr d1"
      and d2: "getitem d1 b = Inr d2"
      and st': "st' = st\<lparr>headings_dict :=
         setitem (headings_dict st) a (setitem d1 b (setitem d2 c (Dict [])))\<rparr>"
      by (auto simp: loop_body_H3[OF h3] split: sum.splits)
    have dk: "\<forall>x\<in>all_keys (headings_dict st). label_ok x" using inv by (simp add: labels_ok_def)
    have e: "\<forall>x\<in>all_keys (Dict []). label_ok x" by simp
    have k1: "\<forall>x\<in>all_keys d1. label_ok x" using dk d1 by (rule keys_ok_getitem)
    have k2: "\<forall>x\<in>all_keys d2. label_ok x" using k1 d2 by (rule keys_ok_getitem)
    have "\<forall>x\<in>all_keys (setitem d2 c (Dict [])). label_ok x"
      using k2 c e by (rule keys_ok_setitem)
    with k1 bok have "\<forall>x\<in>all_keys (setitem d1 b (setitem d2 c (Dict []))). label_ok x"
      by (rule keys_ok_setitem)
    with dk aok have "\<forall>x\<in>all_keys (setitem (headings_dict st) a
        (setitem d1 b (setitem d2 c (Dict [])))). label_ok x"
      by (rule keys_ok_setitem)
    then show ?thesis using inv st' by (simp add: labels_ok_def)
  next
    case False
    with step have "st' = st" by (auto simp: loop_body_H3[OF h3])
    with inv show ?thesis by simp
  qed
next
  case none
  with step have "st' = st" by (simp add: loop_body_none)
  with inv show ?thesis by simp
qed

lemma loop_labels_ok:
  "labels_ok st \<Longrightarrow> loop st ps = Inr st' \<Longrightarrow> labels_ok st'"
proof (induction ps arbitrary: st)
  case Nil
  then show ?case by simp
next
  case (Cons p ps)
  from Cons.prems(2) obtain st1 where s1: "loop_body st p = Inr st1" and s2: "loop st1 ps = Inr st'"
    by (auto split: sum.splits)
  from Cons.prems(1) s1 have "labels_ok st1" by (rule loop_body_labels_ok)
  then show ?case using s2 by (rule Cons.IH)
qed

lemma labels_ok_init: "labels_ok init"
  by (simp add: labels_ok_def init_def)

text \<open>
  C10. Every key of the returned dictionary, at every depth, is a non-empty string that
  neither starts nor ends with a white-space character.
\<close>

theorem extract_headings_keys:
  assumes "extract_headings ps = Inr d"
  shows "\<forall>k\<in>all_keys d. k \<noteq> [] \<and> \<not> isspace (hd k) \<and> \<not> isspace (last k)"
proof -
  from assms obtain st where st: "loop init ps = Inr st" and d: "d = headings_dict st"
    by (auto simp: extract_headings_def split: sum.splits)
  from labels_ok_init st have "labels_ok st" by (rule loop_labels_ok)
  then show ?thesis using d by (simp add: labels_ok_def label_ok_def)
qed

theorem extract_headings_keys_witness:
  "extract_headings [''1   Introduction  '', '' 1.1  Back ground'', ''1.1.1 History'']
     = Inr (Dict [(''Introduction'', Dict [(''Back ground'', Dict [(''History'', Dict [])])])])
   \<and> ''Back ground'' \<in> all_keys
         (Dict [(''Introduction'', Dict [(''Back ground'', Dict [(''History'', Dict [])])])])
   \<and> ''Back ground'' \<noteq> [] \<and> \<not> isspace (hd ''Back ground'')
   \<and> \<not> isspace (last ''Back ground'')"
proof -
  have e: "extract_headings [''1   Introduction  '', '' 1.1  Back ground'', ''1.1.1 History'']
     = Inr (Dict [(''Introduction'', Dict [(''Back ground'', Dict [(''History'', Dict [])])])])"
    by code_simp
  have k: "''Back ground'' \<in> all_keys
      (Dict [(''Introduction'', Dict [(''Back ground'', Dict [(''History'', Dict [])])])])"
    by simp
  from e k extract_headings_keys[OF e] show ?thesis by blast
qed

section \<open>The headings seen so far\<close>

lemma track_H1: "re_match (patterns H1) (strip p) = Some a \<Longrightarrow> track c p = (Some a, None)"
  by (simp add: track_def)

lemma track_H2:
  assumes "re_match (patterns H2) (strip p) = Some b"
  shows "track c p = (if fst c = None then c else (fst c, Some b))"
proof -
  have "re_match (patterns H1) (strip p) = None"
    by (rule other_level_None[OF assms]) simp
  with assms show ?thesis by (simp add: track_def)
qed

lemma track_H3:
  assumes "re_match (patterns H3) (strip p) = Some x"
  shows "track c p = c"
proof -
  have "re_match (patterns H1) (strip p) = None"
    by (rule other_level_None[OF assms]) simp
  moreover have "re_match (patterns H2) (strip p) = None"
    by (rule other_level_None[OF assms]) simp
  ultimately show ?thesis by (simp add: track_def)
qed

lemma track_none: "\<forall>l. re_match (patterns l) (strip p) = None \<Longrightarrow> track c p = c"
  by (simp add: track_def)

lemma loop_body_ctx_inv:
  assumes inv: "ctx_inv c st" and step: "loop_body st p = Inr st'"
  shows "ctx_inv (track c p) st'"
proof (cases p rule: paragraph_cases)
  case (h1 a)
  have "a \<noteq> []" using h1 by (rule re_match_group_nonempty)
  moreover have "st' = st\<lparr>current_h1 := Some a,
      headings_dict := setitem (headings_dict st) a (Dict [])\<rparr>"
    using step loop_body_H1[OF h1, of st] by simp
  ultimately show ?thesis by (simp add: track_H1[OF h1] ctx_inv_def getitem_setitem)
next
  case (h2 b)
  have bne: "b \<noteq> []" using h2 by (rule re_match_group_nonempty)
  show ?thesis
  proof (cases "fst c")
    case None
    with inv have "\<not> truthy (current_h1 st)" by (simp add: ctx_inv_def truthy_def)
    with step have "st' = st" by (simp add: loop_body_H2[OF h2])
    with inv None show ?thesis by (simp add: track_H2[OF h2])
  next
    case (Some a)
    with inv have a: "current_h1 st = Some a" "a \<noteq> []" by (simp_all add: ctx_inv_def)
    then have t: "truthy (current_h1 st)" by (simp add: truthy_def)
    from inv Some obtain d1 where d1: "getitem (headings_dict st) a = Inr d1"
      by (auto simp: ctx_inv_def)
    have "st' = st\<lparr>current_h2 := Some b,
        headings_dict := setitem (headings_dict st) a (setitem d1 b (Dict []))\<rparr>"
      using step t a d1 by (simp add: loop_body_H2[OF h2])
    then show ?thesis using Some a bne
      by (simp add: track_H2[OF h2] ctx_inv_def getitem_setitem)
  qed
next
  case (h3 x)
  show ?thesis
  proof (cases "truthy (current_h1 st) \<and> truthy (current_h2 st)")
    case True
    then obtain a b where a: "current_h1 st = Some a" and b: "current_h2 st = Some b"
      using truthyD by blast
    from step True a b obtain d1 d2 where d1: "getitem (headings_dict st) a = Inr d1"
      and d2: "getitem d1 b = Inr d2"
      and st': "st' = st\<lparr>headings_dict :=
         setitem (headings_dict st) a (setitem d1 b (setitem d2 x (Dict [])))\<rparr>"
      by (auto simp: loop_body_H3[OF h3] split: sum.splits)
    from inv a have fc: "fst c = Some a" by (simp add: ctx_inv_def)
    have sc: "snd c = Some b"
    proof (cases "snd c")
      case None
      with inv fc d1 have "d1 = Dict []" by (auto simp: ctx_inv_def)
      with d2 show ?thesis by (simp add: getitem_def)
    next
      case (Some b')
      with inv fc b show ?thesis by (auto simp: ctx_inv_def)
    qed
    from inv fc have "a \<noteq> []" by (simp add: ctx_inv_def)
    moreover from inv fc sc have "b \<noteq> []" by (auto simp: ctx_inv_def)
    ultimately show ?thesis using st' fc sc a b
      by (simp add: track_H3[OF h3] ctx_inv_def getitem_setitem)
  next
    case False
    with step have "st' = st" by (auto simp: loop_body_H3[OF h3])
    with inv show ?thesis by (simp add: track_H3[OF h3])
  qed
next
  case none
  with step have "st' = st" by (simp add: loop_body_none)
  with inv none show ?thesis by (simp add: track_none)
qed

lemma loop_ctx_inv:
  "ctx_inv c st \<Longrightarrow> loop st ps = Inr st' \<Longrightarrow> ctx_inv (foldl track c ps) st'"
proof (induction ps arbitrary: st c)
  case Nil
  then show ?case by simp
next
  case (Cons p ps)
  from Cons.prems(2) obtain st1 where s1: "loop_body st p = Inr st1" and s2: "loop st1 ps = Inr st'"
    by (auto split: sum.splits)
  from Cons.prems(1) s1 have "ctx_inv (track c p) st1" by (rule loop_body_ctx_inv)
  from Cons.IH[OF this s2] show ?case by simp
qed

lemma ctx_inv_init: "ctx_inv (None, None) init"
  by (simp add: ctx_inv_def init_def)

lemma loop_init_ctx_inv: "loop init ps = Inr st \<Longrightarrow> ctx_inv (heading_context ps) st"
  unfolding heading_context_def using ctx_inv_init by (rule loop_ctx_inv)

lemma fst_track_None:
  "fst (track c p) = None \<longleftrightarrow> fst c = None \<and> re_match (patterns H1) (strip p) = None"
  by (auto simp: track_def split: option.splits)

lemma fst_foldl_track_None:
  "fst (foldl track c ps) = None \<longleftrightarrow>
     fst c = None \<and> (\<forall>q\<in>set ps. re_match (patterns H1) (strip q) = None)"
  by (induction ps arbitrary: c) (auto simp: fst_track_None)

lemma snd_track_None:
  "snd c = None \<Longrightarrow> re_match (patterns H2) (strip p) = None \<Longrightarrow> snd (track c p) = None"
  by (auto simp: track_def split: option.splits)

lemma snd_foldl_track_None:
  "snd c = None \<Longrightarrow> \<forall>q\<in>set ps. re_match (patterns H2) (strip q) = None
     \<Longrightarrow> snd (foldl track c ps) = None"
  by (induction ps arbitrary: c) (auto simp: snd_track_None)

lemma loop_body_current_h2_None:
  assumes "current_h2 st = None" "re_match (patterns H2) (strip p) = None"
    "loop_body st p = Inr st'"
  shows "current_h2 st' = None"
proof (cases p rule: paragraph_cases)
  case (h1 a)
  with assms show ?thesis by (auto simp: loop_body_H1[OF h1])
next
  case (h2 b)
  with assms show ?thesis by simp
next
  case (h3 c)
  with assms show ?thesis by (auto simp: loop_body_H3[OF h3] truthy_def)
next
  case none
  with assms show ?thesis by (auto simp: loop_body_none)
qed

lemma loop_current_h2_None:
  "current_h2 st = None \<Longrightarrow> \<forall>q\<in>set ps. re_match (patterns H2) (strip q) = None
     \<Longrightarrow> loop st ps = Inr st' \<Longrightarrow> current_h2 st' = None"
proof (induction ps arbitrary: st)
  case Nil
  then show ?case by simp
next
  case (Cons p ps)
  from Cons.prems(3) obtain st1 where s1: "loop_body st p = Inr st1" and s2: "loop st1 ps = Inr st'"
    by (auto split: sum.splits)
  have "current_h2 st1 = None"
    using Cons.prems(1,2) s1 by (intro loop_body_current_h2_None[of st p st1]) simp_all
  then show ?case using Cons.prems(2) s2 by (intro Cons.IH[of st1]) simp_all
qed

lemma loop_body_H3_dropped:
  assumes "re_match (patterns H3) (strip p) = Some c"
    "current_h1 st = None \<or> current_h2 st = None"
  shows "loop_body st p = Inr st"
  using assms(2) by (auto simp: loop_body_H3[OF assms(1)] truthy_def)

lemma loop_body_H2_dropped:
  assumes "re_match (patterns H2) (strip p) = Some b" "current_h1 st = None"
  shows "loop_body st p = Inr st"
  using assms(2) by (simp add: loop_body_H2[OF assms(1)] truthy_def)

text \<open>
  What the loop body does after any paragraphs \<open>ps\<close> on which the loop has not raised:
  a level-2 heading is inserted under the label of the last level-1 heading of \<open>ps\<close>,
  and is dropped when \<open>ps\<close> has no level-1 heading; a level-3 heading, when the loop
  body returns, has gone under the last level-1 label and the last level-2 label that
  follows it, or nowhere; a level-3 heading is dropped when \<open>ps\<close> has no level-1
  heading or no level-2 heading. Nothing is said here of a level-3 heading on which the
  loop body raises.
\<close>

lemma inserted_under_heading_context:
  assumes run: "loop init ps = Inr st"
  shows "(\<forall>b. re_match (patterns H2) (strip p) = Some b \<longrightarrow>
            (case fst (heading_context ps) of
               None \<Rightarrow> loop_body st p = Inr st
             | Some a \<Rightarrow> \<exists>d1. getitem (headings_dict st) a = Inr d1 \<and>
                 loop_body st p = Inr (st\<lparr>current_h2 := Some b,
                   headings_dict := setitem (headings_dict st) a (setitem d1 b (Dict []))\<rparr>)))
       \<and> (\<forall>c st'. re_match (patterns H3) (strip p) = Some c \<and> loop_body st p = Inr st' \<longrightarrow>
            (case heading_context ps of
               (Some a, Some b) \<Rightarrow> \<exists>d1 d2. getitem (headings_dict st) a = Inr d1 \<and>
                 getitem d1 b = Inr d2 \<and>
                 st' = st\<lparr>headings_dict := setitem (headings_dict st) a
                                (setitem d1 b (setitem d2 c (Dict [])))\<rparr>
             | _ \<Rightarrow> st' = st))
       \<and> (\<forall>c. re_match (patterns H3) (strip p) = Some c \<and>
              ((\<forall>q\<in>set ps. re_match (patterns H1) (strip q) = None)
               \<or> (\<forall>q\<in>set ps. re_match (patterns H2) (strip q) = None)) \<longrightarrow>
            loop_body st p = Inr st)
       \<and> (fst (heading_context ps) = None \<longleftrightarrow>
            (\<forall>q\<in>set ps. re_match (patterns H1) (strip q) = None))
       \<and> ((\<forall>q\<in>set ps. re_match (patterns H2) (strip q) = None) \<longrightarrow>
            snd (heading_context ps) = None)"
proof -
  let ?c = "heading_context ps"
  have inv: "ctx_inv ?c st" using run by (rule loop_init_ctx_inv)
  have noH1: "fst ?c = None \<longleftrightarrow> (\<forall>q\<in>set ps. re_match (patterns H1) (strip q) = None)"
    by (simp add: heading_context_def fst_foldl_track_None)
  have noH2: "(\<forall>q\<in>set ps. re_match (patterns H2) (strip q) = None) \<longrightarrow> snd ?c = None"
    by (simp add: heading_context_def snd_foldl_track_None)
  have p2: "case fst ?c of
               None \<Rightarrow> loop_body st p = Inr st
             | Some a \<Rightarrow> \<exists>d1. getitem (headings_dict st) a = Inr d1 \<and>
                 loop_body st p = Inr (st\<lparr>current_h2 := Some b,
                   headings_dict := setitem (headings_dict st) a (setitem d1 b (Dict []))\<rparr>)"
    if h2: "re_match (patterns H2) (strip p) = Some b" for b
  proof (cases "fst ?c")
    case None
    with inv have "current_h1 st = None" by (simp add: ctx_inv_def)
    with h2 have "loop_body st p = Inr st" by (rule loop_body_H2_dropped)
    with None show ?thesis by simp
  next
    case (Some a)
    with inv have a: "current_h1 st = Some a" "a \<noteq> []" by (simp_all add: ctx_inv_def)
    from inv Some obtain d1 where d1: "getitem (headings_dict st) a = Inr d1"
      by (auto simp: ctx_inv_def)
    have "loop_body st p = Inr (st\<lparr>current_h2 := Some b,
        headings_dict := setitem (headings_dict st) a (setitem d1 b (Dict []))\<rparr>)"
      using a d1 by (simp add: loop_body_H2[OF h2] truthy_def)
    with d1 Some show ?thesis by simp
  qed
  have p3: "case ?c of
               (Some a, Some b) \<Rightarrow> \<exists>d1 d2. getitem (headings_dict st) a = Inr d1 \<and>
                 getitem d1 b = Inr d2 \<and>
                 st' = st\<lparr>headings_dict := setitem (headings_dict st) a
                                (setitem d1 b (setitem d2 c (Dict [])))\<rparr>
             | _ \<Rightarrow> st' = st"
    if h3: "re_match (patterns H3) (strip p) = Some c" and step: "loop_body st p = Inr st'"
    for c st'
  proof (cases "truthy (current_h1 st) \<and> truthy (current_h2 st)")
    case True
    then obtain a b where a: "current_h1 st = Some a" and b: "current_h2 st = Some b"
      using truthyD by blast
    from step True a b obtain d1 d2 where d1: "getitem (headings_dict st) a = Inr d1"
      and d2: "getitem d1 b = Inr d2"
      and st': "st' = st\<lparr>headings_dict :=
         setitem (headings_dict st) a (setitem d1 b (setitem d2 c (Dict [])))\<rparr>"
      by (auto simp: loop_body_H3[OF h3] split: sum.splits)
    from inv a have fc: "fst ?c = Some a" by (simp add: ctx_inv_def)
    have sc: "snd ?c = Some b"
    proof (cases "snd ?c")
      case None
      with inv fc d1 have "d1 = Dict []" by (auto simp: ctx_inv_def)
      with d2 show ?thesis by (simp add: getitem_def)
    next
      case (Some b')
      with inv fc b show ?thesis by (auto simp: ctx_inv_def)
    qed
    from fc sc have "?c = (Some a, Some b)" by (simp add: prod_eq_iff)
    with d1 d2 st' show ?thesis by simp
  next
    case False
    with step have eq: "st' = st" by (auto simp: loop_body_H3[OF h3])
    have "fst ?c = None \<or> snd ?c = None"
    proof (rule ccontr)
      assume "\<not> (fst ?c = None \<or> snd ?c = None)"
      then obtain a b where "fst ?c = Some a" "snd ?c = Some b" by auto
      with inv have "current_h1 st = Some a" "a \<noteq> []" "current_h2 st = Some b" "b \<noteq> []"
        by (auto simp: ctx_inv_def)
      with False show False by (simp add: truthy_def)
    qed
    moreover obtain x y where c: "?c = (x, y)" by (cases ?c)
    ultimately have "x = None \<or> y = None" by simp
    with eq c show ?thesis by (auto split: option.splits)
  qed
  have d3: "loop_body st p = Inr st"
    if h3: "re_match (patterns H3) (strip p) = Some c"
      and no: "(\<forall>q\<in>set ps. re_match (patterns H1) (strip q) = None)
               \<or> (\<forall>q\<in>set ps. re_match (patterns H2) (strip q) = None)" for c
  proof -
    from no have "current_h1 st = None \<or> current_h2 st = None"
    proof
      assume "\<forall>q\<in>set ps. re_match (patterns H1) (strip q) = None"
      with noH1 inv show ?thesis by (simp add: ctx_inv_def)
    next
      assume "\<forall>q\<in>set ps. re_match (patterns H2) (strip q) = None"
      with run have "current_h2 st = None"
        by (intro loop_current_h2_None[of init ps st]) (simp_all add: init_def)
      then show ?thesis ..
    qed
    with h3 show ?thesis by (rule loop_body_H3_dropped)
  qed
  have P2: "\<forall>b. re_match (patterns H2) (strip p) = Some b \<longrightarrow>
            (case fst (heading_context ps) of
               None \<Rightarrow> loop_body st p = Inr st
             | Some a \<Rightarrow> \<exists>d1. getitem (headings_dict st) a = Inr d1 \<and>
                 loop_body st p = Inr (st\<lparr>current_h2 := Some b,
                   headings_dict := setitem (headings_dict st) a (setitem d1 b (Dict []))\<rparr>))"
    using p2 by (intro allI impI)
  have P3: "\<forall>c st'. re_match (patterns H3) (strip p) = Some c \<and> loop_body st p = Inr st' \<longrightarrow>
            (case heading_context ps of
               (Some a, Some b) \<Rightarrow> \<exists>d1 d2. getitem (headings_dict st) a = Inr d1 \<and>
                 getitem d1 b = Inr d2 \<and>
                 st' = st\<lparr>headings_dict := setitem (headings_dict st) a
                                (setitem d1 b (setitem d2 c (Dict [])))\<rparr>
             | _ \<Rightarrow> st' = st)"
  proof (intro allI impI)
    fix c st'
    assume "re_match (patterns H3) (strip p) = Some c \<and> loop_body st p = Inr st'"
    then have "re_match (patterns H3) (strip p) = Some c" "loop_body st p = Inr st'"
      by simp_all
    then show "case heading_context ps of
               (Some a, Some b) \<Rightarrow> \<exists>d1 d2. getitem (headings_dict st) a = Inr d1 \<and>
                 getitem d1 b = Inr d2 \<and>
                 st' = st\<lparr>headings_dict := setitem (headings_dict st) a
                                (setitem d1 b (setitem d2 c (Dict [])))\<rparr>
             | _ \<Rightarrow> st' = st"
      by (rule p3)
  qed
  have D3: "\<forall>c. re_match (patterns H3) (strip p) = Some c \<and>
              ((\<forall>q\<in>set ps. re_match (patterns H1) (strip q) = None)
               \<or> (\<forall>q\<in>set ps. re_match (patterns H2) (strip q) = None)) \<longrightarrow>
            loop_body st p = Inr st"
    using d3 by blast
  show ?thesis by (rule conjI[OF P2 conjI[OF P3 conjI[OF D3 conjI[OF noH1 noH2]]]])
qed

text \<open>
  C2. Every level-2 entry is to go under the last level-1 label, every level-3 entry under
  the last pair of a level-1 and a level-2 label, and a heading that comes before its
  ancestor is to be dropped silently. After the paragraphs \<open>1 A\<close>, \<open>1.1 B\<close>, \<open>2 C\<close>
  no level-2 heading has followed the level-1 heading \<open>C\<close>, but \<open>current_h2\<close> still
  holds \<open>B\<close>: the level-3 heading \<open>1.1.1 D\<close> is neither inserted nor dropped, the
  loop body raises \<open>KeyError\<close>.
\<close>

theorem stale_level3_neither_inserted_nor_dropped:
  "loop init [''1 A'', ''1.1 B'', ''2 C'']
     = Inr \<lparr>headings_dict = Dict [(''A'', Dict [(''B'', Dict [])]), (''C'', Dict [])],
            current_h1 = Some ''C'', current_h2 = Some ''B''\<rparr>
   \<and> heading_context [''1 A'', ''1.1 B'', ''2 C''] = (Some ''C'', None)
   \<and> re_match (patterns H3) (strip ''1.1.1 D'') = Some ''D''
   \<and> loop_body \<lparr>headings_dict = Dict [(''A'', Dict [(''B'', Dict [])]), (''C'', Dict [])],
            current_h1 = Some ''C'', current_h2 = Some ''B''\<rparr> ''1.1.1 D''
     = Inl KeyError"
proof -
  have "loop init [''1 A'', ''1.1 B'', ''2 C'']
     = Inr \<lparr>headings_dict = Dict [(''A'', Dict [(''B'', Dict [])]), (''C'', Dict [])],
            current_h1 = Some ''C'', current_h2 = Some ''B''\<rparr>"
    by code_simp
  moreover have "heading_context [''1 A'', ''1.1 B'', ''2 C''] = (Some ''C'', None)"
    by code_simp
  moreover have "re_match (patterns H3) (strip ''1.1.1 D'') = Some ''D''"
    by code_simp
  moreover have "loop_body \<lparr>headings_dict = Dict [(''A'', Dict [(''B'', Dict [])]), (''C'', Dict [])],
            current_h1 = Some ''C'', current_h2 = Some ''B''\<rparr> ''1.1.1 D''
     = Inl KeyError"
    by code_simp
  ultimately show ?thesis by (intro conjI)
qed

section \<open>Dropped and overwritten headings\<close>

lemma loop_no_H1:
  "current_h1 st = None \<Longrightarrow> \<forall>q\<in>set ps. re_match (patterns H1) (strip q) = None
     \<Longrightarrow> loop st ps = Inr st"
proof (induction ps)
  case Nil
  then show ?case by simp
next
  case (Cons p ps)
  have "loop_body st p = Inr st"
  proof (cases p rule: paragraph_cases)
    case (h1 a)
    with Cons.prems(2) show ?thesis by simp
  next
    case (h2 b)
    then show ?thesis using Cons.prems(1) by (rule loop_body_H2_dropped)
  next
    case (h3 c)
    then show ?thesis using Cons.prems(1) by (intro loop_body_H3_dropped[of p c]) simp_all
  next
    case none
    then show ?thesis by (rule loop_body_none)
  qed
  with Cons show ?case by simp
qed

lemma loop_Cons_dropped:
  "loop_body st p = Inr st \<Longrightarrow> loop st (p # qs) = loop st qs"
  by simp

text \<open>
  C1. The extractor is claimed never to raise, also when a level-3 heading meets a level-2
  label carried over from an earlier level-1 section. On the paragraphs \<open>1 A\<close>, \<open>1.1 B\<close>,
  \<open>2 C\<close>, \<open>1.1.1 D\<close> the lookup \<open>headings_dict["C"]["B"]\<close> raises \<open>KeyError\<close>.
\<close>

theorem stale_level2_raises_KeyError:
  "extract_headings [''1 A'', ''1.1 B'', ''2 C'', ''1.1.1 D''] = Inl KeyError"
  by code_simp

text \<open>
  C4. When the trimmed text of no paragraph matches any of the three patterns, the result
  is the empty dictionary.
\<close>

theorem no_heading_empty_mapping:
  assumes "\<forall>p\<in>set ps. \<forall>l. re_match (patterns l) (strip p) = None"
  shows "extract_headings ps = Inr (Dict [])"
  using assms by (rule extract_headings_no_heading)

theorem no_heading_empty_mapping_witness:
  "extract_headings [''Summary'', ''1.Intro'', ''   '', ''1.1'', ''a 1 b''] = Inr (Dict [])"
proof -
  have h: "\<forall>p\<in>set [''Summary'', ''1.Intro'', ''   '', ''1.1'', ''a 1 b''].
      \<forall>l. re_match (patterns l) (strip p) = None"
  proof (intro ballI allI)
    fix p l
    assume p: "p \<in> set [''Summary'', ''1.Intro'', ''   '', ''1.1'', ''a 1 b'']"
    have a1: "\<forall>p\<in>set [''Summary'', ''1.Intro'', ''   '', ''1.1'', ''a 1 b''].
        re_match (patterns H1) (strip p) = None" by code_simp
    have a2: "\<forall>p\<in>set [''Summary'', ''1.Intro'', ''   '', ''1.1'', ''a 1 b''].
        re_match (patterns H2) (strip p) = None" by code_simp
    have a3: "\<forall>p\<in>set [''Summary'', ''1.Intro'', ''   '', ''1.1'', ''a 1 b''].
        re_match (patterns H3) (strip p) = None" by code_simp
    note r = a1[rule_format, OF p] a2[rule_format, OF p] a3[rule_format, OF p]
    show "re_match (patterns l) (strip p) = None"
      by (cases l) (simp_all only: r)
  qed
  from no_heading_empty_mapping[OF h] show ?thesis .
qed

text \<open>
  C5. A level-2 heading met before any level-1 heading is dropped: the state of the loop is
  unchanged, and the result is the same as without that paragraph; the single paragraph
  \<open>1.1 Orphan\<close> gives the empty dictionary.
\<close>

theorem orphan_level2_dropped:
  assumes "re_match (patterns H2) (strip p) \<noteq> None"
  shows "(\<forall>st. current_h1 st = None \<longrightarrow> loop_body st p = Inr st)
    \<and> (\<forall>ps qs. (\<forall>q\<in>set ps. re_match (patterns H1) (strip q) = None) \<longrightarrow>
          extract_headings (ps @ p # qs) = extract_headings (ps @ qs))
    \<and> extract_headings [''1.1 Orphan''] = Inr (Dict [])"
proof -
  from assms obtain b where h2: "re_match (patterns H2) (strip p) = Some b" by auto
  have a: "loop_body st p = Inr st" if "current_h1 st = None" for st
    using h2 that by (rule loop_body_H2_dropped)
  have b: "extract_headings (ps @ p # qs) = extract_headings (ps @ qs)"
    if no: "\<forall>q\<in>set ps. re_match (patterns H1) (strip q) = None" for ps qs
  proof -
    have i: "current_h1 init = None" by (simp add: init_def)
    have "loop init ps = Inr init" using i no by (rule loop_no_H1)
    moreover have "loop_body init p = Inr init" using i by (rule a)
    ultimately show ?thesis by (simp add: extract_headings_def loop_append)
  qed
  have c: "extract_headings [''1.1 Orphan''] = Inr (Dict [])" by code_simp
  from a b c show ?thesis by blast
qed

theorem orphan_level2_dropped_witness:
  "re_match (patterns H2) (strip ''1.1 Orphan'') \<noteq> None
   \<and> extract_headings [''Preface'', ''1.1 Orphan'', ''1 A''] = Inr (Dict [(''A'', Dict [])])"
proof -
  have h: "re_match (patterns H2) (strip ''1.1 Orphan'') \<noteq> None" by code_simp
  have n: "\<forall>q\<in>set [''Preface'']. re_match (patterns H1) (strip q) = None" by code_simp
  have e: "extract_headings ([''Preface''] @ [''1 A'']) = Inr (Dict [(''A'', Dict [])])"
    by code_simp
  from orphan_level2_dropped[OF h] n
  have "extract_headings ([''Preface''] @ ''1.1 Orphan'' # [''1 A''])
      = extract_headings ([''Preface''] @ [''1 A''])" by blast
  with e h show ?thesis by simp
qed

text \<open>
  C6. A level-3 heading met while no current level-2 label is set is dropped: the state of
  the loop is unchanged, and the result is the same as without that paragraph; the
  paragraphs \<open>1 A\<close>, \<open>1.1.1 B\<close> give \<open>{"A": {}}\<close>.
\<close>

theorem orphan_level3_dropped:
  assumes "re_match (patterns H3) (strip p) \<noteq> None"
  shows "(\<forall>st. current_h2 st = None \<longrightarrow> loop_body st p = Inr st)
    \<and> (\<forall>ps qs. (\<forall>q\<in>set ps. re_match (patterns H2) (strip q) = None) \<longrightarrow>
          extract_headings (ps @ p # qs) = extract_headings (ps @ qs))
    \<and> extract_headings [''1 A'', ''1.1.1 B''] = Inr (Dict [(''A'', Dict [])])"
proof -
  from assms obtain c where h3: "re_match (patterns H3) (strip p) = Some c" by auto
  have a: "loop_body st p = Inr st" if "current_h2 st = None" for st
    using that by (intro loop_body_H3_dropped[OF h3]) simp
  have b: "extract_headings (ps @ p # qs) = extract_headings (ps @ qs)"
    if no: "\<forall>q\<in>set ps. re_match (patterns H2) (strip q) = None" for ps qs
  proof (cases "loop init ps")
    case (Inl e)
    then show ?thesis by (simp add: extract_headings_def loop_append)
  next
    case (Inr st)
    have "current_h2 init = None" by (simp add: init_def)
    then have "current_h2 st = None" using no Inr by (rule loop_current_h2_None)
    then have "loop_body st p = Inr st" by (rule a)
    with Inr show ?thesis by (simp add: extract_headings_def loop_append)
  qed
  have c: "extract_headings [''1 A'', ''1.1.1 B''] = Inr (Dict [(''A'', Dict [])])" by code_simp
  from a b c show ?thesis by blast
qed

theorem orphan_level3_dropped_witness:
  "re_match (patterns H3) (strip ''1.1.1 B'') \<noteq> None
   \<and> extract_headings [''1 A'', ''1.1.1 B'', ''1.1 C''] = Inr (Dict [(''A'', Dict [(''C'', Dict [])])])"
proof -
  have h: "re_match (patterns H3) (strip ''1.1.1 B'') \<noteq> None" by code_simp
  have n: "\<forall>q\<in>set [''1 A'']. re_match (patterns H2) (strip q) = None" by code_simp
  have e: "extract_headings ([''1 A''] @ [''1.1 C'']) = Inr (Dict [(''A'', Dict [(''C'', Dict [])])])"
    by code_simp
  from orphan_level3_dropped[OF h] n
  have "extract_headings ([''1 A''] @ ''1.1.1 B'' # [''1.1 C''])
      = extract_headings ([''1 A''] @ [''1.1 C''])" by blast
  with e h show ?thesis by simp
qed

text \<open>
  C7. A level-1 heading sets the entry of its label to the empty dictionary, whatever was
  stored under that label before, and leaves every other top-level entry as it was.
\<close>

theorem level1_overwrites_entry:
  assumes "extract_headings ps = Inr d" "re_match (patterns H1) (strip p) = Some a"
  shows "extract_headings (ps @ [p]) = Inr (setitem d a (Dict []))
    \<and> getitem (setitem d a (Dict [])) a = Inr (Dict [])
    \<and> (\<forall>k. k \<noteq> a \<longrightarrow> getitem (setitem d a (Dict [])) k = getitem d k)"
proof -
  from assms(1) obtain st where st: "loop init ps = Inr st" and d: "d = headings_dict st"
    by (auto simp: extract_headings_def split: sum.splits)
  have "extract_headings (ps @ [p]) = Inr (setitem d a (Dict []))"
    using st d by (simp add: extract_headings_def loop_snoc loop_body_H1[OF assms(2)])
  then show ?thesis by (simp add: getitem_setitem)
qed

theorem level1_overwrites_entry_witness:
  "extract_headings [''1 Intro'', ''1.1 X'', ''1.1.1 Y'', ''2 Other'']
      = Inr (Dict [(''Intro'', Dict [(''X'', Dict [(''Y'', Dict [])])]), (''Other'', Dict [])])
   \<and> re_match (patterns H1) (strip ''3 Intro'') = Some ''Intro''
   \<and> extract_headings ([''1 Intro'', ''1.1 X'', ''1.1.1 Y'', ''2 Other''] @ [''3 Intro''])
      = Inr (Dict [(''Intro'', Dict []), (''Other'', Dict [])])"
proof -
  have e: "extract_headings [''1 Intro'', ''1.1 X'', ''1.1.1 Y'', ''2 Other'']
      = Inr (Dict [(''Intro'', Dict [(''X'', Dict [(''Y'', Dict [])])]), (''Other'', Dict [])])"
    by code_simp
  have m: "re_match (patterns H1) (strip ''3 Intro'') = Some ''Intro''" by code_simp
  have s: "setitem (Dict [(''Intro'', Dict [(''X'', Dict [(''Y'', Dict [])])]), (''Other'', Dict [])])
      ''Intro'' (Dict []) = Dict [(''Intro'', Dict []), (''Other'', Dict [])]"
    by code_simp
  from level1_overwrites_entry[OF e m] s e m show ?thesis by simp
qed

text \<open>
  C9. Blank paragraphs do not change the result: the result on a sequence equals the result
  on the sequence without its blank paragraphs, so two sequences that differ in blank
  paragraphs only have the same result.
\<close>

theorem blank_paragraphs_ignored:
  "extract_headings (filter (\<lambda>p. \<not> blank p) ps) = extract_headings ps
   \<and> (\<forall>qs. filter (\<lambda>p. \<not> blank p) qs = filter (\<lambda>p. \<not> blank p) ps \<longrightarrow>
         extract_headings qs = extract_headings ps)"
  by (metis extract_headings_blank)

theorem blank_paragraphs_ignored_witness:
  "extract_headings ['''', ''1 A'', ''  '', [CHR 0x09, CHR 0x0A], ''1.1 B'', '' '']
     = extract_headings [''1 A'', ''1.1 B'']"
proof -
  have f: "filter (\<lambda>p. \<not> blank p) ['''', ''1 A'', ''  '', [CHR 0x09, CHR 0x0A], ''1.1 B'', '' '']
      = filter (\<lambda>p. \<not> blank p) [''1 A'', ''1.1 B'']"
    by code_simp
  from blank_paragraphs_ignored[of "[''1 A'', ''1.1 B'']"] f show ?thesis by blast
qed

section \<open>Worked inputs\<close>

text \<open>
  C3. The paragraphs \<open>1 Introduction\<close>, \<open>1.1 Background\<close>, \<open>1.1.1 History\<close>, in that
  order, give the nested dictionary
  \<open>{"Introduction": {"Background": {"History": {}}}}\<close>.
\<close>

theorem extract_headings_three_levels:
  "extract_headings [''1 Introduction'', ''1.1 Background'', ''1.1.1 History'']
     = Inr (Dict [(''Introduction'', Dict [(''Background'', Dict [(''History'', Dict [])])])])"
  by code_simp

end
